theory Spec2Isabelle
  imports Main "HOL-Library.Multiset"
begin

section \<open>The world outside crawlWebsite\<close>

text \<open>
  \<^verbatim>\<open>crawlWebsite\<close> (src/app.js, lines 55 to 104) calls four things it does not define:
  \<^verbatim>\<open>axios.get\<close>, cheerio's \<^verbatim>\<open>$('a[href]')\<close>, the \<^verbatim>\<open>URL\<close> constructor and the event
  loop, which decides in which order the promises of a chunk settle. They are the fields
  of a record, so every theorem below holds for every network, every page content, every
  URL parser and every completion order.

  \<^item> \<open>axios_get w n url\<close> is the outcome of the request with number \<open>n\<close> (counting the calls
    of \<^verbatim>\<open>axios.get\<close> of one crawl from 0): \<open>None\<close> when the promise rejects (network
    error, timeout, bad status), \<open>Some body\<close> for \<^verbatim>\<open>response.data\<close>.
  \<^item> \<open>anchor_hrefs w body\<close> is the list of the \<^verbatim>\<open>href\<close> attributes of the anchors of
    \<open>body\<close>, in document order.
  \<^item> \<open>url_href w href base\<close> is \<^verbatim>\<open>new URL(href, base).href\<close>, \<open>None\<close> when the
    constructor throws.
  \<^item> \<open>url_hostname w s\<close> is \<^verbatim>\<open>new URL(s).hostname\<close>, \<open>None\<close> when the constructor throws.
  \<^item> \<open>settle_next w t\<close> chooses which pending promise settles next, when \<open>t\<close> promises of
    the crawl have settled before: the one at position \<open>settle_next w t mod p\<close> among the
    \<open>p\<close> pending ones. Every completion order is the choice of some \<open>settle_next\<close>.
\<close>

record world =
  axios_get :: "nat \<Rightarrow> string \<Rightarrow> string option"
  anchor_hrefs :: "string \<Rightarrow> string list"
  url_href :: "string \<Rightarrow> string \<Rightarrow> string option"
  url_hostname :: "string \<Rightarrow> string option"
  settle_next :: "nat \<Rightarrow> nat"

section \<open>The state of one crawl\<close>

text \<open>
  \<open>visited\<close> is the JavaScript \<^verbatim>\<open>Set\<close> in insertion order (the order in which a
  \<^verbatim>\<open>Set\<close> is iterated), so \<^verbatim>\<open>visited.size\<close> is its length. The other three fields
  observe the run and are never read by it: \<open>requests\<close> lists the arguments of the calls
  of \<^verbatim>\<open>axios.get\<close> in call order, \<open>settled\<close> counts the promises that have settled and
  \<open>levels\<close> counts the iterations of the loop over \<^verbatim>\<open>depth\<close> that were entered.
  The three limits are natural numbers: the interface takes integers from 0 or 1 upwards.
\<close>

record crawl_state =
  visited :: "string list"
  requests :: "string list"
  settled :: nat
  levels :: nat

definition set_add :: "string list \<Rightarrow> string \<Rightarrow> string list" where
  "set_add vis link = (if link \<in> set vis then vis else vis @ [link])"

section \<open>The callback of one request (lines 69 to 90)\<close>

text \<open>Lines 72 to 78: the hrefs that the URL constructor accepts, made absolute.\<close>

definition links_of :: "world \<Rightarrow> string \<Rightarrow> string \<Rightarrow> string list" where
  "links_of w url body = List.map_filter (\<lambda>href. url_href w href url) (anchor_hrefs w body)"

text \<open>Line 81: both constructors may throw, the link's first; \<open>None\<close> is the exception.\<close>

definition sameDomain :: "world \<Rightarrow> string \<Rightarrow> string \<Rightarrow> bool option" where
  "sameDomain w startUrl link =
     (case url_hostname w link of
        None \<Rightarrow> None
      | Some h \<Rightarrow> (case url_hostname w startUrl of
                    None \<Rightarrow> None
                  | Some h0 \<Rightarrow> Some (h = h0)))"

text \<open>
  Lines 80 to 83: \<^verbatim>\<open>links.filter\<close> against the set as it is when the callback runs. The
  filter is finished before line 84 adds anything, and an exception leaves it at once.
\<close>

fun filter_newLinks :: "world \<Rightarrow> string \<Rightarrow> string list \<Rightarrow> string list \<Rightarrow> string list option" where
  "filter_newLinks w startUrl vis [] = Some []"
| "filter_newLinks w startUrl vis (link # links) =
     (case sameDomain w startUrl link of
        None \<Rightarrow> None
      | Some sd \<Rightarrow>
          (case filter_newLinks w startUrl vis links of
             None \<Rightarrow> None
           | Some newLinks \<Rightarrow> Some (if sd \<and> link \<notin> set vis then link # newLinks else newLinks)))"

text \<open>
  The \<^verbatim>\<open>then\<close> callback: an exception of the filter goes to \<^verbatim>\<open>catch\<close>, which
  returns the empty array, before line 84 has run.
\<close>

definition on_response :: "world \<Rightarrow> string \<Rightarrow> string \<Rightarrow> string \<Rightarrow> string list \<Rightarrow> string list \<times> string list" where
  "on_response w startUrl url body vis =
     (case filter_newLinks w startUrl vis (links_of w url body) of
        None \<Rightarrow> ([], vis)
      | Some newLinks \<Rightarrow> (newLinks, foldl set_add vis newLinks))"

text \<open>The promise of one url settles: \<^verbatim>\<open>catch\<close> for a rejected request, \<^verbatim>\<open>then\<close> otherwise.\<close>

definition on_settled :: "world \<Rightarrow> string \<Rightarrow> string \<Rightarrow> string option \<Rightarrow> string list \<Rightarrow> string list \<times> string list" where
  "on_settled w startUrl url response vis =
     (case response of
        None \<Rightarrow> ([], vis)
      | Some body \<Rightarrow> on_response w startUrl url body vis)"

section \<open>One chunk (lines 66 to 95)\<close>

text \<open>The order in which the pending promises settle, chosen one at a time.\<close>

function settle_order :: "(nat \<Rightarrow> nat) \<Rightarrow> nat \<Rightarrow> 'a list \<Rightarrow> 'a list" where
  "settle_order pick t pending =
     (if pending = [] then []
      else (let k = pick t mod length pending
            in pending ! k # settle_order pick (Suc t) (take k pending @ drop (Suc k) pending)))"
  by pat_completeness auto
termination
proof (relation "measure (\<lambda>(pick, t, pending). length pending)")
  show "wf (measure (\<lambda>(pick :: nat \<Rightarrow> nat, t :: nat, pending :: 'a list). length pending))"
    by simp
next
  fix pick :: "nat \<Rightarrow> nat" and t :: nat and pending :: "'a list" and k :: nat
  assume ne: "pending \<noteq> []" and k: "k = pick t mod length pending"
  from ne have "k < length pending"
    unfolding k by simp
  then show "((pick, Suc t, take k pending @ drop (Suc k) pending), (pick, t, pending))
             \<in> measure (\<lambda>(pick, t, pending). length pending)"
    by simp
qed

declare settle_order.simps [simp del]

text \<open>
  A promise is the index of its url in the chunk, the url and the outcome of its request.
  When it settles, its callback runs to the end (JavaScript runs one callback at a time)
  and its result takes the promise's place in \<^verbatim>\<open>results\<close>.
\<close>

definition settle_step ::
  "world \<Rightarrow> string \<Rightarrow> nat \<times> string \<times> string option \<Rightarrow> string list list \<times> string list
     \<Rightarrow> string list list \<times> string list" where
  "settle_step w startUrl p acc =
     (case p of (k, url, response) \<Rightarrow>
        (case acc of (results, vis) \<Rightarrow>
           (case on_settled w startUrl url response vis of
              (newLinks, vis') \<Rightarrow> (results[k := newLinks], vis'))))"

text \<open>
  \<^verbatim>\<open>chunk.map\<close> starts every request of the chunk, in order; \<^verbatim>\<open>Promise.all\<close> waits for
  all of them and keeps the chunk's order in \<^verbatim>\<open>results\<close>. The first component of the
  value is what lines 93 to 95 push to \<^verbatim>\<open>nextLevel\<close>.
\<close>

definition run_chunk :: "world \<Rightarrow> string \<Rightarrow> string list \<Rightarrow> crawl_state \<Rightarrow> string list \<times> crawl_state" where
  "run_chunk w startUrl chunk st =
     (let n0 = length (requests st);
          promises = map (\<lambda>k. (k, chunk ! k, axios_get w (n0 + k) (chunk ! k))) [0..<length chunk]
      in (case fold (settle_step w startUrl)
                 (settle_order (settle_next w) (settled st) promises)
                 (replicate (length chunk) [], visited st) of
            (results, vis) \<Rightarrow>
              (concat results,
               st\<lparr>visited := vis,
                  requests := requests st @ chunk,
                  settled := settled st + length chunk\<rparr>)))"

section \<open>The loop over the chunks of one level (lines 65 to 97)\<close>

text \<open>
  With \<^verbatim>\<open>concurrencyLimit\<close> 0 the index never moves, so the loop is a partial function:
  \<open>None\<close> is a loop that never ends.
\<close>

partial_function (option) level_loop ::
  "world \<Rightarrow> string \<Rightarrow> nat \<Rightarrow> nat \<Rightarrow> string list \<Rightarrow> nat \<Rightarrow> string list \<Rightarrow> crawl_state
     \<Rightarrow> (string list \<times> crawl_state) option" where
  "level_loop w startUrl concurrencyLimit maxPages currentLevel i nextLevel st =
     (if i < length currentLevel then
        (case run_chunk w startUrl (take concurrencyLimit (drop i currentLevel)) st of
           (links, st') \<Rightarrow>
             if maxPages \<le> length (visited st') then Some (nextLevel @ links, st')
             else level_loop w startUrl concurrencyLimit maxPages currentLevel
                    (i + concurrencyLimit) (nextLevel @ links) st')
      else Some (nextLevel, st))"

declare level_loop.simps [code]

section \<open>The loop over the levels (lines 61 to 101) and crawlWebsite\<close>

function crawl_loop ::
  "world \<Rightarrow> string \<Rightarrow> nat \<Rightarrow> nat \<Rightarrow> nat \<Rightarrow> nat \<Rightarrow> string list \<Rightarrow> crawl_state \<Rightarrow> crawl_state option" where
  "crawl_loop w startUrl maxDepth concurrencyLimit maxPages depth currentLevel st =
     (if depth < maxDepth then
        (case level_loop w startUrl concurrencyLimit maxPages currentLevel 0 []
                (st\<lparr>levels := Suc (levels st)\<rparr>) of
           None \<Rightarrow> None
         | Some (nextLevel, st') \<Rightarrow>
             if maxPages \<le> length (visited st') \<or> nextLevel = [] then Some st'
             else crawl_loop w startUrl maxDepth concurrencyLimit maxPages (Suc depth) nextLevel st')
      else Some st)"
  by pat_completeness auto
termination
  by (relation "measure (\<lambda>(w, startUrl, maxDepth, concurrencyLimit, maxPages, depth, currentLevel, st).
        maxDepth - depth)") auto

declare crawl_loop.simps [simp del]

text \<open>
  Lines 56 to 58 and 103. The value is \<open>None\<close> when the call never returns; the returned
  \<^verbatim>\<open>Set\<close> is the field \<open>visited\<close> of the final state.
\<close>

definition crawlWebsite :: "world \<Rightarrow> string \<Rightarrow> nat \<Rightarrow> nat \<Rightarrow> nat \<Rightarrow> crawl_state option" where
  "crawlWebsite w startUrl maxDepth concurrencyLimit maxPages =
     crawl_loop w startUrl maxDepth concurrencyLimit maxPages 0 [startUrl]
       \<lparr>visited = set_add [] startUrl, requests = [], settled = 0, levels = 0\<rparr>"

section \<open>The other reading of a chunk\<close>


section \<open>Notions used in the proofs\<close>

text \<open>A link passes line 81; the filter of a page throws; the links a response offers.\<close>

definition accepts :: "world \<Rightarrow> string \<Rightarrow> string \<Rightarrow> bool" where
  "accepts w startUrl link = (sameDomain w startUrl link = Some True)"

definition throws :: "world \<Rightarrow> string \<Rightarrow> string list \<Rightarrow> bool" where
  "throws w startUrl links = (\<exists>link \<in> set links. sameDomain w startUrl link = None)"

definition candidates :: "world \<Rightarrow> string \<Rightarrow> string \<Rightarrow> string option \<Rightarrow> string list" where
  "candidates w startUrl url response =
     (case response of
        None \<Rightarrow> []
      | Some body \<Rightarrow> if throws w startUrl (links_of w url body) then []
                     else filter (accepts w startUrl) (links_of w url body))"

definition promise_candidates :: "world \<Rightarrow> string \<Rightarrow> nat \<times> string \<times> string option \<Rightarrow> string list" where
  "promise_candidates w startUrl p = candidates w startUrl (fst (snd p)) (snd (snd p))"

definition chunk_candidates :: "world \<Rightarrow> string \<Rightarrow> string list \<Rightarrow> crawl_state \<Rightarrow> nat \<Rightarrow> string list" where
  "chunk_candidates w startUrl chunk st k =
     candidates w startUrl (chunk ! k) (axios_get w (length (requests st) + k) (chunk ! k))"

section \<open>A small site\<close>

text \<open>
  The home page of \<^verbatim>\<open>http://a.com\<close> links to \<^verbatim>\<open>/about\<close> twice, to \<^verbatim>\<open>/team\<close>,
  to \<^verbatim>\<open>/news\<close> and to another host. The pages \<^verbatim>\<open>/about\<close> and \<^verbatim>\<open>/news\<close> link to
  the same two pages in opposite orders; every other request fails. The string
  \<^verbatim>\<open>a.com\<close> is not a URL, although a request for it is answered with the home page.
  Promises settle in the order of their requests.
\<close>

definition site_hostname :: "string \<Rightarrow> string option" where
  "site_hostname s =
     (if s \<in> set [''http://a.com'', ''http://a.com/'', ''http://a.com/about'', ''http://a.com/team'',
                   ''http://a.com/news'', ''http://a.com/jobs'']
      then Some ''a.com''
      else if s = ''http://b.com/x'' then Some ''b.com'' else None)"

definition site_a :: world where
  "site_a =
     \<lparr>axios_get = (\<lambda>n url.
        if url = ''http://a.com'' \<or> url = ''a.com'' then Some ''home''
        else if url = ''http://a.com/about'' then Some ''about''
        else if url = ''http://a.com/news'' then Some ''news''
        else None),
      anchor_hrefs = (\<lambda>body.
        if body = ''home'' then [''/about'', ''http://b.com/x'', ''/team'', ''/about'', ''/news'']
        else if body = ''about'' then [''/'', ''/jobs'']
        else if body = ''news'' then [''/jobs'', ''/'']
        else []),
      url_href = (\<lambda>href base.
        if href = ''http://b.com/x'' then Some href
        else if site_hostname base = Some ''a.com'' then Some (''http://a.com'' @ href)
        else None),
      url_hostname = site_hostname,
      settle_next = (\<lambda>t. 0)\<rparr>"




section \<open>The set and the callback\<close>

lemma foldl_set_add_set: "set (foldl set_add vis ls) = set vis \<union> set ls"
  by (induction ls arbitrary: vis) (auto simp: set_add_def)

lemma foldl_set_add_distinct: "distinct vis \<Longrightarrow> distinct (foldl set_add vis ls)"
  by (induction ls arbitrary: vis) (auto simp: set_add_def)

lemma foldl_set_add_prefix: "\<exists>ys. foldl set_add vis ls = vis @ ys"
proof (induction ls arbitrary: vis)
  case Nil
  show ?case by simp
next
  case (Cons l ls)
  obtain ys where ys: "foldl set_add (set_add vis l) ls = set_add vis l @ ys"
    using Cons.IH by blast
  obtain zs where zs: "set_add vis l = vis @ zs"
    by (cases "l \<in> set vis") (simp_all add: set_add_def)
  have "foldl set_add vis (l # ls) = vis @ (zs @ ys)"
    using ys zs by simp
  then show ?case by blast
qed


lemma filter_newLinks_eq:
  "filter_newLinks w startUrl vis links =
     (if throws w startUrl links then None
      else Some (filter (\<lambda>link. accepts w startUrl link \<and> link \<notin> set vis) links))"
  by (induction links) (auto simp: throws_def accepts_def split: option.splits)

lemma accepts_hostname:
  "accepts w startUrl link \<longleftrightarrow> (\<exists>h. url_hostname w link = Some h \<and> url_hostname w startUrl = Some h)"
  by (auto simp: accepts_def sameDomain_def split: option.splits)

lemma on_settled_eq:
  "on_settled w startUrl url response vis =
     (filter (\<lambda>link. link \<notin> set vis) (candidates w startUrl url response),
      foldl set_add vis (filter (\<lambda>link. link \<notin> set vis) (candidates w startUrl url response)))"
  by (auto simp: on_settled_def on_response_def candidates_def filter_newLinks_eq split: option.splits)

lemma settle_order_Nil: "settle_order pick t [] = []"
  by (subst settle_order.simps) simp

lemma settle_order_mset: "mset (settle_order pick t pending) = mset pending"
proof (induction pick t pending rule: settle_order.induct)
  case (1 pick t pending)
  show ?case
  proof (cases "pending = []")
    case True
    then show ?thesis by (simp add: settle_order_Nil)
  next
    case False
    define k where "k = pick t mod length pending"
    from False have k: "k < length pending" by (simp add: k_def)
    have "mset (settle_order pick (Suc t) (take k pending @ drop (Suc k) pending))
          = mset (take k pending @ drop (Suc k) pending)"
      using "1.IH" [OF False k_def] .
    moreover have "mset pending = mset (take k pending @ pending ! k # drop (Suc k) pending)"
      using id_take_nth_drop [OF k] by simp
    ultimately show ?thesis
      using False by (subst settle_order.simps) (simp add: k_def Let_def)
  qed
qed

section \<open>The promises of a chunk\<close>

lemma concat_update_mset:
  assumes "k < length results" and "results ! k = []"
  shows "mset (concat (results[k := newLinks])) = mset (concat results) + mset newLinks"
proof -
  have a: "results = take k results @ [] # drop (Suc k) results"
    using id_take_nth_drop [OF assms(1)] assms(2) by simp
  have b: "results[k := newLinks] = take k results @ newLinks # drop (Suc k) results"
    using assms(1) by (simp add: upd_conv_take_nth_drop)
  have "mset (concat results) = mset (concat (take k results)) + mset (concat (drop (Suc k) results))"
    by (subst a) simp
  moreover have "mset (concat (results[k := newLinks]))
      = mset (concat (take k results)) + mset newLinks + mset (concat (drop (Suc k) results))"
    by (subst b) simp
  ultimately show ?thesis by simp
qed

lemma settle_step_eq:
  "settle_step w startUrl p (results, vis) =
     (results[fst p := filter (\<lambda>link. link \<notin> set vis) (promise_candidates w startUrl p)],
      foldl set_add vis (filter (\<lambda>link. link \<notin> set vis) (promise_candidates w startUrl p)))"
  by (cases p) (simp add: settle_step_def on_settled_eq promise_candidates_def)

lemma count_list_filter: "count_list (filter P xs) x = (if P x then count_list xs x else 0)"
  by (induction xs) auto

lemma fold_settle_step:
  assumes "distinct (map fst ps)"
    and "\<forall>p \<in> set ps. fst p < length results \<and> results ! fst p = []"
    and "fold (settle_step w startUrl) ps (results, vis) = (results', vis')"
  shows "\<exists>added. mset (concat results') = mset (concat results) + mset added
           \<and> vis' = foldl set_add vis added
           \<and> set added = (\<Union>p \<in> set ps. set (promise_candidates w startUrl p)) - set vis
           \<and> (\<forall>l \<in> set added. \<exists>p \<in> set ps. count_list added l = count_list (promise_candidates w startUrl p) l)"
  using assms
proof (induction ps arbitrary: results vis)
  case Nil
  then show ?case by (intro exI [of _ "[]"]) simp
next
  case (Cons p ps)
  define nl where "nl = filter (\<lambda>link. link \<notin> set vis) (promise_candidates w startUrl p)"
  define results1 where "results1 = results[fst p := nl]"
  define vis1 where "vis1 = foldl set_add vis nl"
  have step: "settle_step w startUrl p (results, vis) = (results1, vis1)"
    by (simp add: settle_step_eq nl_def results1_def vis1_def)
  have d: "distinct (map fst ps)" and notin: "fst p \<notin> fst ` set ps"
    using Cons.prems(1) by auto
  have slots: "\<forall>q \<in> set ps. fst q < length results1 \<and> results1 ! fst q = []"
  proof
    fix q assume q: "q \<in> set ps"
    then have "fst q \<noteq> fst p" using notin by (metis imageI)
    moreover have "fst q < length results \<and> results ! fst q = []"
      using Cons.prems(2) q by simp
    ultimately show "fst q < length results1 \<and> results1 ! fst q = []"
      by (simp add: results1_def)
  qed
  have rest: "fold (settle_step w startUrl) ps (results1, vis1) = (results', vis')"
    using Cons.prems(3) step by simp
  obtain added where
    a1: "mset (concat results') = mset (concat results1) + mset added" and
    a2: "vis' = foldl set_add vis1 added" and
    a3: "set added = (\<Union>q \<in> set ps. set (promise_candidates w startUrl q)) - set vis1" and
    a4: "\<forall>l \<in> set added. \<exists>q \<in> set ps. count_list added l = count_list (promise_candidates w startUrl q) l"
    using Cons.IH [OF d slots rest] by blast
  have p_slot: "fst p < length results" "results ! fst p = []"
    using Cons.prems(2) by simp_all
  have c1: "mset (concat results1) = mset (concat results) + mset nl"
    unfolding results1_def by (rule concat_update_mset [OF p_slot])
  have vis1_set: "set vis1 = set vis \<union> set nl"
    by (simp add: vis1_def foldl_set_add_set)
  have nl_set: "set nl = set (promise_candidates w startUrl p) - set vis"
    by (auto simp: nl_def)
  have b1: "mset (concat results') = mset (concat results) + mset (nl @ added)"
    using a1 c1 by simp
  have b2: "vis' = foldl set_add vis (nl @ added)"
    using a2 by (simp add: vis1_def)
  have b3: "set (nl @ added) = (\<Union>q \<in> set (p # ps). set (promise_candidates w startUrl q)) - set vis"
    using a3 vis1_set nl_set by auto
  have b4: "\<forall>l \<in> set (nl @ added). \<exists>q \<in> set (p # ps).
              count_list (nl @ added) l = count_list (promise_candidates w startUrl q) l"
  proof
    fix l assume l: "l \<in> set (nl @ added)"
    show "\<exists>q \<in> set (p # ps). count_list (nl @ added) l = count_list (promise_candidates w startUrl q) l"
    proof (cases "l \<in> set nl")
      case True
      then have "l \<notin> set added" using a3 vis1_set by auto
      then have "count_list added l = 0" by (simp add: count_list_0_iff)
      moreover have "l \<notin> set vis" using True nl_set by auto
      then have "count_list nl l = count_list (promise_candidates w startUrl p) l"
        by (simp add: nl_def count_list_filter)
      ultimately show ?thesis by auto
    next
      case False
      then have "count_list nl l = 0" by (simp add: count_list_0_iff)
      moreover from False l have "l \<in> set added" by simp
      then obtain q where "q \<in> set ps"
        "count_list added l = count_list (promise_candidates w startUrl q) l"
        using a4 by blast
      ultimately show ?thesis by auto
    qed
  qed
  show ?case
    using b1 b2 b3 b4 by blast
qed

section \<open>What a chunk does\<close>

lemma run_chunk_summary:
  assumes "run_chunk w startUrl chunk st = (links, st')"
  shows "\<exists>added. mset links = mset added
           \<and> visited st' = foldl set_add (visited st) added
           \<and> set added = (\<Union>k < length chunk. set (chunk_candidates w startUrl chunk st k)) - set (visited st)
           \<and> (\<forall>l \<in> set added. \<exists>k < length chunk.
                 count_list added l = count_list (chunk_candidates w startUrl chunk st k) l)"
proof -
  define promises where "promises =
    map (\<lambda>k. (k, chunk ! k, axios_get w (length (requests st) + k) (chunk ! k))) [0..<length chunk]"
  define ps where "ps = settle_order (settle_next w) (settled st) promises"
  obtain results vis where f:
    "fold (settle_step w startUrl) ps (replicate (length chunk) [], visited st) = (results, vis)"
    by (cases "fold (settle_step w startUrl) ps (replicate (length chunk) [], visited st)")
  have links: "links = concat results" and vis: "visited st' = vis"
    using assms f unfolding run_chunk_def Let_def promises_def [symmetric] ps_def [symmetric]
    by auto
  have m: "mset ps = mset promises"
    by (simp add: ps_def settle_order_mset)
  have fst_promises: "map fst promises = [0..<length chunk]"
    by (simp add: promises_def comp_def)
  have "mset (map fst ps) = mset (map fst promises)"
    using m by (metis mset_map)
  then have d: "distinct (map fst ps)"
    using fst_promises by (metis distinct_upt mset_eq_imp_distinct_iff)
  have s: "set ps = set promises"
    using m by (rule mset_eq_setD)
  have slots: "\<forall>p \<in> set ps. fst p < length (replicate (length chunk) ([] :: string list))
                 \<and> replicate (length chunk) ([] :: string list) ! fst p = []"
    by (auto simp: s promises_def)
  obtain added where
    a1: "mset (concat results) = mset (concat (replicate (length chunk) ([] :: string list))) + mset added" and
    a2: "vis = foldl set_add (visited st) added" and
    a3: "set added = (\<Union>p \<in> set ps. set (promise_candidates w startUrl p)) - set (visited st)" and
    a4: "\<forall>l \<in> set added. \<exists>p \<in> set ps. count_list added l = count_list (promise_candidates w startUrl p) l"
    using fold_settle_step [OF d slots f] by blast
  have pc: "\<And>k. promise_candidates w startUrl
                 (k, chunk ! k, axios_get w (length (requests st) + k) (chunk ! k))
               = chunk_candidates w startUrl chunk st k"
    by (simp add: promise_candidates_def chunk_candidates_def)
  have u: "(\<Union>p \<in> set ps. set (promise_candidates w startUrl p))
           = (\<Union>k < length chunk. set (chunk_candidates w startUrl chunk st k))"
    by (auto simp: s promises_def pc)
  have c: "\<forall>l \<in> set added. \<exists>k < length chunk.
             count_list added l = count_list (chunk_candidates w startUrl chunk st k) l"
  proof
    fix l assume "l \<in> set added"
    then obtain p where p: "p \<in> set promises"
      "count_list added l = count_list (promise_candidates w startUrl p) l"
      using a4 s by blast
    then obtain k where "k < length chunk"
      "p = (k, chunk ! k, axios_get w (length (requests st) + k) (chunk ! k))"
      by (auto simp: promises_def)
    then show "\<exists>k < length chunk. count_list added l = count_list (chunk_candidates w startUrl chunk st k) l"
      using p(2) pc by auto
  qed
  have "mset links = mset added"
    using a1 links by simp
  then show ?thesis
    using a2 a3 c vis u by auto
qed

lemma run_chunk_fields:
  assumes "run_chunk w startUrl chunk st = (links, st')"
  shows "requests st' = requests st @ chunk"
    and "settled st' = settled st + length chunk"
    and "levels st' = levels st"
  using assms by (auto simp: run_chunk_def Let_def split: prod.splits)

lemma run_chunk_Nil: "run_chunk w startUrl [] st = ([], st)"
  by (simp add: run_chunk_def settle_order_Nil)

lemma run_chunk_visited:
  assumes "run_chunk w startUrl chunk st = (links, st')"
  shows "set (visited st') = set (visited st) \<union> set links"
    and "set links \<inter> set (visited st) = {}"
    and "distinct (visited st) \<Longrightarrow> distinct (visited st')"
    and "\<exists>ys. visited st' = visited st @ ys"
proof -
  obtain added where a: "mset links = mset added"
    "visited st' = foldl set_add (visited st) added"
    "set added = (\<Union>k < length chunk. set (chunk_candidates w startUrl chunk st k)) - set (visited st)"
    using run_chunk_summary [OF assms] by blast
  have s: "set links = set added" using a(1) by (rule mset_eq_setD)
  show "set (visited st') = set (visited st) \<union> set links"
    by (simp add: a(2) s foldl_set_add_set)
  show "set links \<inter> set (visited st) = {}"
    using a(3) s by auto
  show "distinct (visited st) \<Longrightarrow> distinct (visited st')"
    by (simp add: a(2) foldl_set_add_distinct)
  show "\<exists>ys. visited st' = visited st @ ys"
    unfolding a(2) by (rule foldl_set_add_prefix)
qed

lemma candidates_accepts: "l \<in> set (candidates w startUrl url response) \<Longrightarrow> accepts w startUrl l"
  by (auto simp: candidates_def split: option.splits if_splits)

lemma run_chunk_accepts:
  assumes "run_chunk w startUrl chunk st = (links, st')" and "l \<in> set links"
  shows "accepts w startUrl l"
proof -
  obtain added where a: "mset links = mset added"
    "set added = (\<Union>k < length chunk. set (chunk_candidates w startUrl chunk st k)) - set (visited st)"
    using run_chunk_summary [OF assms(1)] by blast
  have "set links = set added" using a(1) by (rule mset_eq_setD)
  then obtain k where "l \<in> set (chunk_candidates w startUrl chunk st k)"
    using a(2) assms(2) by auto
  then show ?thesis
    unfolding chunk_candidates_def by (rule candidates_accepts)
qed



section \<open>The two loops\<close>

lemma level_loop_terminates:
  assumes "0 < concurrencyLimit"
  shows "\<exists>r. level_loop w startUrl concurrencyLimit maxPages currentLevel i nextLevel st = Some r"
proof (induction "length currentLevel - i" arbitrary: i nextLevel st rule: less_induct)
  case less
  show ?case
  proof (cases "i < length currentLevel")
    case False
    then show ?thesis by (subst level_loop.simps) simp
  next
    case True
    obtain links st' where r:
      "run_chunk w startUrl (take concurrencyLimit (drop i currentLevel)) st = (links, st')"
      by (cases "run_chunk w startUrl (take concurrencyLimit (drop i currentLevel)) st")
    show ?thesis
    proof (cases "maxPages \<le> length (visited st')")
      case True
      with \<open>i < length currentLevel\<close> r show ?thesis
        by (subst level_loop.simps) simp
    next
      case False
      have "length currentLevel - (i + concurrencyLimit) < length currentLevel - i"
        using assms True by arith
      then obtain r' where "level_loop w startUrl concurrencyLimit maxPages currentLevel
                              (i + concurrencyLimit) (nextLevel @ links) st' = Some r'"
        using less by blast
      with True False r show ?thesis
        by (subst level_loop.simps) simp
    qed
  qed
qed

lemma level_loop_rule:
  assumes run: "level_loop w startUrl concurrencyLimit maxPages currentLevel i nextLevel st = Some (nextLevel', st')"
    and init: "I i nextLevel st"
    and step: "\<And>j nxt s links s1.
                 j < length currentLevel \<Longrightarrow> I j nxt s \<Longrightarrow>
                 run_chunk w startUrl (take concurrencyLimit (drop j currentLevel)) s = (links, s1) \<Longrightarrow>
                 I (j + concurrencyLimit) (nxt @ links) s1"
  shows "\<exists>j. I j nextLevel' st' \<and> (length currentLevel \<le> j \<or> maxPages \<le> length (visited st'))"
proof -
  define P where "P = (\<lambda>w' startUrl' c' m' cur' j nxt s (r :: string list \<times> crawl_state).
      w' = w \<and> startUrl' = startUrl \<and> c' = concurrencyLimit \<and> m' = maxPages \<and> cur' = currentLevel \<longrightarrow>
      I j nxt s \<longrightarrow>
      (\<exists>j. I j (fst r) (snd r) \<and> (length currentLevel \<le> j \<or> maxPages \<le> length (visited (snd r)))))"
  have "P w startUrl concurrencyLimit maxPages currentLevel i nextLevel st (nextLevel', st')"
  proof (rule level_loop.raw_induct [where P = P, OF _ run], goal_cases)
    case (1 f w' startUrl' c' m' cur' j nxt s r)
    show ?case
      unfolding P_def
    proof (intro impI)
      assume eq: "w' = w \<and> startUrl' = startUrl \<and> c' = concurrencyLimit \<and> m' = maxPages \<and> cur' = currentLevel"
        and I: "I j nxt s"
      show "\<exists>j. I j (fst r) (snd r) \<and> (length currentLevel \<le> j \<or> maxPages \<le> length (visited (snd r)))"
      proof (cases "j < length currentLevel")
        case False
        with 1(2) eq have "r = (nxt, s)" by simp
        with I False show ?thesis by auto
      next
        case True
        obtain links s1 where rc:
          "run_chunk w startUrl (take concurrencyLimit (drop j currentLevel)) s = (links, s1)"
          by (cases "run_chunk w startUrl (take concurrencyLimit (drop j currentLevel)) s")
        have I1: "I (j + concurrencyLimit) (nxt @ links) s1"
          using step [OF True I rc] .
        show ?thesis
        proof (cases "maxPages \<le> length (visited s1)")
          case True
          with 1(2) eq rc \<open>j < length currentLevel\<close> have "r = (nxt @ links, s1)" by simp
          with I1 True show ?thesis by auto
        next
          case False
          with 1(2) eq rc True
          have "f w startUrl concurrencyLimit maxPages currentLevel
                  (j + concurrencyLimit) (nxt @ links) s1 = Some r" by simp
          then have "P w startUrl concurrencyLimit maxPages currentLevel
                       (j + concurrencyLimit) (nxt @ links) s1 r"
            by (rule 1(1))
          with I1 show ?thesis by (simp add: P_def)
        qed
      qed
    qed
  qed
  with init show ?thesis by (simp add: P_def)
qed

lemma level_loop_diverges:
  assumes "i < length currentLevel" and "length (visited st) < maxPages"
  shows "level_loop w startUrl 0 maxPages currentLevel i nextLevel st = None"
proof (rule ccontr)
  assume "level_loop w startUrl 0 maxPages currentLevel i nextLevel st \<noteq> None"
  then obtain r where run: "level_loop w startUrl 0 maxPages currentLevel i nextLevel st = Some r"
    by blast
  define P where "P = (\<lambda>(w' :: world) (startUrl' :: string) c' m' (cur' :: string list) i'
      (nxt' :: string list) (st' :: crawl_state) (r :: string list \<times> crawl_state).
      \<not> (c' = (0 :: nat) \<and> i' < length cur' \<and> length (visited st') < m'))"
  have "P w startUrl 0 maxPages currentLevel i nextLevel st r"
  proof (rule level_loop.raw_induct [where P = P, OF _ run], goal_cases)
    case (1 f w' startUrl' c' m' cur' i' nxt' st' r)
    show ?case
      unfolding P_def
    proof
      assume a: "c' = 0 \<and> i' < length cur' \<and> length (visited st') < m'"
      with 1(2) have "f w' startUrl' c' m' cur' (i' + c') (nxt' @ []) st' = Some r"
        by (simp add: run_chunk_Nil)
      then have "P w' startUrl' c' m' cur' (i' + c') (nxt' @ []) st' r"
        by (rule 1(1))
      with a show False by (simp add: P_def)
    qed
  qed
  with assms show False by (simp add: P_def)
qed

lemma crawl_loop_terminates:
  assumes "0 < concurrencyLimit"
  shows "\<exists>st'. crawl_loop w startUrl maxDepth concurrencyLimit maxPages depth currentLevel st = Some st'"
proof (induction "maxDepth - depth" arbitrary: depth currentLevel st)
  case 0
  then show ?case by (subst crawl_loop.simps) simp
next
  case (Suc n)
  then have lt: "depth < maxDepth" and n: "n = maxDepth - Suc depth" by arith+
  obtain r where "level_loop w startUrl concurrencyLimit maxPages currentLevel 0 []
                    (st\<lparr>levels := Suc (levels st)\<rparr>) = Some r"
    using level_loop_terminates [OF assms] by blast
  then obtain nextLevel st1 where l:
    "level_loop w startUrl concurrencyLimit maxPages currentLevel 0 [] (st\<lparr>levels := Suc (levels st)\<rparr>)
       = Some (nextLevel, st1)"
    by (cases r) simp
  show ?case
  proof (cases "maxPages \<le> length (visited st1) \<or> nextLevel = []")
    case True
    with lt l show ?thesis by (subst crawl_loop.simps) simp
  next
    case False
    obtain st' where
      "crawl_loop w startUrl maxDepth concurrencyLimit maxPages (Suc depth) nextLevel st1 = Some st'"
      using Suc.hyps(1) [OF n] by blast
    with lt False l show ?thesis by (subst crawl_loop.simps) simp
  qed
qed

lemma crawl_loop_rule:
  assumes run: "crawl_loop w startUrl maxDepth concurrencyLimit maxPages depth currentLevel st = Some st'"
    and init: "I currentLevel st"
    and step: "\<And>cur s nxt s1. I cur s \<Longrightarrow>
                 level_loop w startUrl concurrencyLimit maxPages cur 0 [] (s\<lparr>levels := Suc (levels s)\<rparr>)
                   = Some (nxt, s1) \<Longrightarrow> I nxt s1"
  shows "\<exists>cur. I cur st'"
  using run init
proof (induction "maxDepth - depth" arbitrary: depth currentLevel st)
  case 0
  then have "st' = st" by (subst (asm) crawl_loop.simps) simp
  with "0.prems"(2) show ?case by blast
next
  case (Suc n)
  then have lt: "depth < maxDepth" and n: "n = maxDepth - Suc depth" by arith+
  from lt Suc.prems(1) obtain nextLevel st1 where l:
    "level_loop w startUrl concurrencyLimit maxPages currentLevel 0 [] (st\<lparr>levels := Suc (levels st)\<rparr>)
       = Some (nextLevel, st1)"
    by (subst (asm) crawl_loop.simps) (auto split: option.splits)
  have I1: "I nextLevel st1"
    using step [OF Suc.prems(2) l] .
  show ?case
  proof (cases "maxPages \<le> length (visited st1) \<or> nextLevel = []")
    case True
    with lt l Suc.prems(1) have "st' = st1"
      by (subst (asm) crawl_loop.simps) simp
    with I1 show ?thesis by blast
  next
    case False
    with lt l Suc.prems(1)
    have "crawl_loop w startUrl maxDepth concurrencyLimit maxPages (Suc depth) nextLevel st1 = Some st'"
      by (subst (asm) crawl_loop.simps) simp
    from Suc.hyps(1) [OF n this I1] show ?thesis .
  qed
qed

section \<open>What a level does\<close>



lemma level_loop_levels:
  assumes "level_loop w startUrl concurrencyLimit maxPages currentLevel i nextLevel st = Some (nextLevel', st')"
  shows "levels st' = levels st"
proof -
  have "\<exists>j. (\<lambda>j nxt s. levels s = levels st) j nextLevel' st'
             \<and> (length currentLevel \<le> j \<or> maxPages \<le> length (visited st'))"
    by (rule level_loop_rule [OF assms]) (simp_all add: run_chunk_fields)
  then show ?thesis by simp
qed

lemma level_loop_visited:
  assumes "level_loop w startUrl concurrencyLimit maxPages currentLevel i nextLevel st = Some (nextLevel', st')"
  shows "\<exists>ys. visited st' = visited st @ ys"
    and "distinct (visited st) \<Longrightarrow> distinct (visited st')"
    and "\<forall>u \<in> set (visited st') - set (visited st). accepts w startUrl u"
proof -
  define I where "I = (\<lambda>(j :: nat) (nxt :: string list) (s :: crawl_state).
      (\<exists>ys. visited s = visited st @ ys)
      \<and> (distinct (visited st) \<longrightarrow> distinct (visited s))
      \<and> (\<forall>u \<in> set (visited s) - set (visited st). accepts w startUrl u))"
  have "\<exists>j. I j nextLevel' st' \<and> (length currentLevel \<le> j \<or> maxPages \<le> length (visited st'))"
  proof (rule level_loop_rule [OF assms])
    show "I i nextLevel st" by (simp add: I_def)
  next
    fix j nxt s links s1
    assume I: "I j nxt s"
      and rc: "run_chunk w startUrl (take concurrencyLimit (drop j currentLevel)) s = (links, s1)"
    from I obtain ys where ys: "visited s = visited st @ ys" by (auto simp: I_def)
    from run_chunk_visited(4) [OF rc] obtain zs where zs: "visited s1 = visited s @ zs" by blast
    have a: "\<exists>ys. visited s1 = visited st @ ys" using ys zs by simp
    have b: "distinct (visited st) \<longrightarrow> distinct (visited s1)"
      using I run_chunk_visited(3) [OF rc] by (simp add: I_def)
    have c: "\<forall>u \<in> set (visited s1) - set (visited st). accepts w startUrl u"
    proof
      fix u assume u: "u \<in> set (visited s1) - set (visited st)"
      show "accepts w startUrl u"
      proof (cases "u \<in> set (visited s)")
        case True
        with u I show ?thesis by (simp add: I_def)
      next
        case False
        with u run_chunk_visited(1) [OF rc] have "u \<in> set links" by auto
        then show ?thesis by (rule run_chunk_accepts [OF rc])
      qed
    qed
    show "I (j + concurrencyLimit) (nxt @ links) s1"
      using a b c by (simp add: I_def)
  qed
  then have "I 0 [] st'" by (auto simp: I_def)
  then show "\<exists>ys. visited st' = visited st @ ys"
    and "distinct (visited st) \<Longrightarrow> distinct (visited st')"
    and "\<forall>u \<in> set (visited st') - set (visited st). accepts w startUrl u"
    by (simp_all add: I_def)
qed




section \<open>What a crawl does\<close>

lemma crawl_depth_zero:
  "crawlWebsite w startUrl 0 concurrencyLimit maxPages =
     Some \<lparr>visited = [startUrl], requests = [], settled = 0, levels = 0\<rparr>"
  unfolding crawlWebsite_def by (subst crawl_loop.simps) (simp add: set_add_def)

lemma crawl_terminates:
  "0 < concurrencyLimit \<Longrightarrow> \<exists>st. crawlWebsite w startUrl maxDepth concurrencyLimit maxPages = Some st"
  unfolding crawlWebsite_def by (rule crawl_loop_terminates)

lemma crawl_diverges:
  assumes "0 < maxDepth" and "1 < maxPages"
  shows "crawlWebsite w startUrl maxDepth 0 maxPages = None"
proof -
  have "level_loop w startUrl 0 maxPages [startUrl] 0 []
          \<lparr>visited = [startUrl], requests = [], settled = 0, levels = Suc 0\<rparr> = None"
    using assms(2) by (intro level_loop_diverges) simp_all
  with assms(1) show ?thesis
    unfolding crawlWebsite_def by (subst crawl_loop.simps) (simp add: set_add_def)
qed



lemma crawl_visited:
  assumes "crawlWebsite w startUrl maxDepth concurrencyLimit maxPages = Some st"
  shows "distinct (visited st)"
    and "\<exists>ys. visited st = startUrl # ys"
    and "\<forall>u \<in> set (visited st). u = startUrl \<or> accepts w startUrl u"
proof -
  define I where "I = (\<lambda>(cur :: string list) (s :: crawl_state).
      distinct (visited s) \<and> (\<exists>ys. visited s = startUrl # ys)
      \<and> (\<forall>u \<in> set (visited s). u = startUrl \<or> accepts w startUrl u))"
  have "\<exists>cur. I cur st"
  proof (rule crawl_loop_rule [OF assms [unfolded crawlWebsite_def]])
    show "I [startUrl] \<lparr>visited = set_add [] startUrl, requests = [], settled = 0, levels = 0\<rparr>"
      by (simp add: I_def set_add_def)
  next
    fix cur s nxt s1
    assume I: "I cur s"
      and l: "level_loop w startUrl concurrencyLimit maxPages cur 0 [] (s\<lparr>levels := Suc (levels s)\<rparr>)
                = Some (nxt, s1)"
    from level_loop_visited(1) [OF l] obtain zs where zs: "visited s1 = visited s @ zs" by auto
    from I obtain ys where ys: "visited s = startUrl # ys" by (auto simp: I_def)
    have a: "distinct (visited s1)"
      using level_loop_visited(2) [OF l] I by (simp add: I_def)
    have b: "\<exists>ys. visited s1 = startUrl # ys"
      using ys zs by simp
    have c: "\<forall>u \<in> set (visited s1). u = startUrl \<or> accepts w startUrl u"
      using level_loop_visited(3) [OF l] I by (auto simp: I_def)
    show "I nxt s1"
      using a b c by (simp add: I_def)
  qed
  then show "distinct (visited st)"
    and "\<exists>ys. visited st = startUrl # ys"
    and "\<forall>u \<in> set (visited st). u = startUrl \<or> accepts w startUrl u"
    by (auto simp: I_def)
qed

lemma crawl_loop_levels:
  assumes "crawl_loop w startUrl maxDepth concurrencyLimit maxPages depth currentLevel st = Some st'"
  shows "levels st' \<le> levels st + (maxDepth - depth)"
  using assms
proof (induction "maxDepth - depth" arbitrary: depth currentLevel st)
  case 0
  then have "st' = st" by (subst (asm) crawl_loop.simps) simp
  then show ?case by simp
next
  case (Suc n)
  then have lt: "depth < maxDepth" and n: "n = maxDepth - Suc depth" by arith+
  from lt Suc.prems(1) obtain nextLevel st1 where l:
    "level_loop w startUrl concurrencyLimit maxPages currentLevel 0 [] (st\<lparr>levels := Suc (levels st)\<rparr>)
       = Some (nextLevel, st1)"
    by (subst (asm) crawl_loop.simps) (auto split: option.splits)
  have lv: "levels st1 = Suc (levels st)"
    using level_loop_levels [OF l] by simp
  show ?case
  proof (cases "maxPages \<le> length (visited st1) \<or> nextLevel = []")
    case True
    with lt l Suc.prems(1) have "st' = st1"
      by (subst (asm) crawl_loop.simps) simp
    with lv lt show ?thesis by simp
  next
    case False
    with lt l Suc.prems(1)
    have "crawl_loop w startUrl maxDepth concurrencyLimit maxPages (Suc depth) nextLevel st1 = Some st'"
      by (subst (asm) crawl_loop.simps) simp
    from Suc.hyps(1) [OF n this] lv lt show ?thesis by simp
  qed
qed

section \<open>The completion order, and the links of one page\<close>







section \<open>The claims\<close>

text \<open>
  Claim C1: with \<^verbatim>\<open>maxPages\<close> at least 1 the returned set has at most \<^verbatim>\<open>maxPages\<close>
  elements, and with \<^verbatim>\<open>maxPages\<close> 1 it is the seed alone. The code compares
  \<^verbatim>\<open>visited.size\<close> with \<^verbatim>\<open>maxPages\<close> only after the links of a chunk have been added
  (lines 96 and 100) and never before the first chunk: on the small site, with
  \<^verbatim>\<open>maxPages\<close> 1, the crawl returns four urls.
\<close>

theorem maxPages_overshoot_C1:
  "crawlWebsite site_a ''http://a.com'' 2 10 1 =
     Some \<lparr>visited = [''http://a.com'', ''http://a.com/about'', ''http://a.com/team'', ''http://a.com/news''],
           requests = [''http://a.com''], settled = 1, levels = 1\<rparr>"
  by code_simp









text \<open>
  Claim C5: the loop over the levels is entered at most \<^verbatim>\<open>maxDepth\<close> times, and with
  \<^verbatim>\<open>maxDepth\<close> 0 the crawl returns the seed alone and calls \<^verbatim>\<open>axios.get\<close> not at all.
\<close>

theorem depth_bound_C5:
  "(crawlWebsite w startUrl maxDepth concurrencyLimit maxPages = Some st \<longrightarrow> levels st \<le> maxDepth)
   \<and> crawlWebsite w startUrl 0 concurrencyLimit maxPages =
       Some \<lparr>visited = [startUrl], requests = [], settled = 0, levels = 0\<rparr>"
proof
  show "crawlWebsite w startUrl maxDepth concurrencyLimit maxPages = Some st \<longrightarrow> levels st \<le> maxDepth"
  proof
    assume "crawlWebsite w startUrl maxDepth concurrencyLimit maxPages = Some st"
    from crawl_loop_levels [OF this [unfolded crawlWebsite_def]] show "levels st \<le> maxDepth" by simp
  qed
  show "crawlWebsite w startUrl 0 concurrencyLimit maxPages =
          Some \<lparr>visited = [startUrl], requests = [], settled = 0, levels = 0\<rparr>"
    by (rule crawl_depth_zero)
qed

theorem depth_bound_C5_witness:
  "crawlWebsite site_a ''http://a.com'' 1 10 100 =
     Some \<lparr>visited = [''http://a.com'', ''http://a.com/about'', ''http://a.com/team'', ''http://a.com/news''],
           requests = [''http://a.com''], settled = 1, levels = 1\<rparr>
   \<and> levels \<lparr>visited = [''http://a.com'', ''http://a.com/about'', ''http://a.com/team'', ''http://a.com/news''],
           requests = [''http://a.com''], settled = 1, levels = 1\<rparr> \<le> 1
   \<and> crawlWebsite site_a ''http://a.com'' 0 10 100 =
       Some \<lparr>visited = [''http://a.com''], requests = [], settled = 0, levels = 0\<rparr>"
proof -
  have run: "crawlWebsite site_a ''http://a.com'' 1 10 100 =
     Some \<lparr>visited = [''http://a.com'', ''http://a.com/about'', ''http://a.com/team'', ''http://a.com/news''],
           requests = [''http://a.com''], settled = 1, levels = 1\<rparr>"
    by code_simp
  from depth_bound_C5 [of site_a "''http://a.com''" 1 10 100] run
    depth_bound_C5 [of site_a "''http://a.com''" 0 10 100]
  show ?thesis by blast
qed

text \<open>
  Claim C6: every url of the returned set other than the seed has a hostname, and it is
  equal to the hostname of the seed; nothing but the two hostnames is compared. So a link
  to another host, found on a page of the seed's host, is not in the returned set.
\<close>

theorem same_host_C6:
  assumes "crawlWebsite w startUrl maxDepth concurrencyLimit maxPages = Some st"
    and "u \<in> set (visited st)" and "u \<noteq> startUrl"
  shows "\<exists>h. url_hostname w u = Some h \<and> url_hostname w startUrl = Some h"
  using crawl_visited(3) [OF assms(1)] assms(2,3) by (auto simp: accepts_hostname)

theorem same_host_C6_witness:
  "crawlWebsite site_a ''http://a.com'' 1 10 100 =
     Some \<lparr>visited = [''http://a.com'', ''http://a.com/about'', ''http://a.com/team'', ''http://a.com/news''],
           requests = [''http://a.com''], settled = 1, levels = 1\<rparr>
   \<and> ''http://b.com/x'' \<in> set (links_of site_a ''http://a.com'' ''home'')
   \<and> ''http://b.com/x'' \<notin> set [''http://a.com'', ''http://a.com/about'', ''http://a.com/team'', ''http://a.com/news'']
   \<and> (\<exists>h. url_hostname site_a ''http://a.com/about'' = Some h \<and> url_hostname site_a ''http://a.com'' = Some h)"
proof -
  have run: "crawlWebsite site_a ''http://a.com'' 1 10 100 =
     Some \<lparr>visited = [''http://a.com'', ''http://a.com/about'', ''http://a.com/team'', ''http://a.com/news''],
           requests = [''http://a.com''], settled = 1, levels = 1\<rparr>"
    by code_simp
  have link: "''http://b.com/x'' \<in> set (links_of site_a ''http://a.com'' ''home'')"
    by code_simp
  have out: "''http://b.com/x'' \<notin> set [''http://a.com'', ''http://a.com/about'', ''http://a.com/team'', ''http://a.com/news'']"
    by simp
  have "\<exists>h. url_hostname site_a ''http://a.com/about'' = Some h \<and> url_hostname site_a ''http://a.com'' = Some h"
    by (rule same_host_C6 [OF run]) simp_all
  with run link out show ?thesis by blast
qed

text \<open>
  Claim C8: with \<^verbatim>\<open>concurrencyLimit\<close> at least 1 the crawl returns, for every seed, every
  \<^verbatim>\<open>maxDepth\<close> and \<^verbatim>\<open>maxPages\<close>, every network, every page content and every
  completion order.
\<close>

theorem crawl_terminates_C8:
  assumes "1 \<le> concurrencyLimit"
  shows "\<exists>st. crawlWebsite w startUrl maxDepth concurrencyLimit maxPages = Some st"
  using assms by (intro crawl_terminates) simp

theorem crawl_terminates_C8_witness:
  "(1 :: nat) \<le> 10 \<and> (\<exists>st. crawlWebsite site_a ''http://a.com'' 2 10 100 = Some st)"
  using crawl_terminates_C8 [of 10 site_a "''http://a.com''" 2 100] by simp



text \<open>
  Claim C10: with \<^verbatim>\<open>concurrencyLimit\<close> 0, an index inside the current level and fewer than
  \<^verbatim>\<open>maxPages\<close> urls visited, one pass of the loop over the chunks takes the empty chunk
  and changes nothing, so the loop never ends; the call of \<^verbatim>\<open>crawlWebsite\<close> with
  \<^verbatim>\<open>maxDepth\<close> above 0 and \<^verbatim>\<open>maxPages\<close> above 1 never returns.
\<close>

theorem zero_limit_C10:
  "(i < length currentLevel \<and> length (visited st) < maxPages \<longrightarrow>
      run_chunk w startUrl (take 0 (drop i currentLevel)) st = ([], st)
      \<and> level_loop w startUrl 0 maxPages currentLevel i nextLevel st = None)
   \<and> (0 < maxDepth \<and> 1 < maxPages \<longrightarrow> crawlWebsite w startUrl maxDepth 0 maxPages = None)"
  by (simp add: run_chunk_Nil level_loop_diverges crawl_diverges)

theorem zero_limit_C10_witness:
  "level_loop site_a ''http://a.com'' 0 100 [''http://a.com''] 0 []
     \<lparr>visited = [''http://a.com''], requests = [], settled = 0, levels = 1\<rparr> = None
   \<and> crawlWebsite site_a ''http://a.com'' 2 0 100 = None"
  using zero_limit_C10 [of 0 "[''http://a.com'']"
      "\<lparr>visited = [''http://a.com''], requests = [], settled = 0, levels = 1\<rparr>" 100
      site_a "''http://a.com''" "[]" 2]
  by simp

end
